theory Spec2Isabelle
  imports Complex_Main "HOL-Library.Word"
begin

section \<open>Regular expressions as the highlighter uses them\<close>

text \<open>
  The highlighter hands its patterns to the toolkit's regular-expression engine
  (\<^verbatim>\<open>QRegExp\<close>, default syntax, greedy). The patterns of \<^verbatim>\<open>main.py\<close> use literal
  text, the classes \<^verbatim>\<open>\d\<close>, \<^verbatim>\<open>\w\<close>, \<^verbatim>\<open>\s\<close>, \<^verbatim>\<open>.\<close> and \<^verbatim>\<open>[^c]\<close>, the word boundary
  \<^verbatim>\<open>\b\<close>, concatenation, \<^verbatim>\<open>*\<close>, \<^verbatim>\<open>+\<close> and \<^verbatim>\<open>?\<close>. A line of text is a \<^typ>\<open>string\<close>;
  positions count characters from 0.
\<close>

datatype cls = Digit | WordC | SpaceC | AnyC | Not char

datatype rx = Str string | Cls cls | Bnd | Seq rx rx | Star rx | Plus rx | Opt rx

definition is_digit :: "char \<Rightarrow> bool" where
  "is_digit c = (c \<in> set ''0123456789'')"

text \<open>
  The engine's classes go by the Unicode category of a character: \<^verbatim>\<open>\d\<close> is a decimal digit,
  \<^verbatim>\<open>\w\<close> a letter, a mark, a number or the underscore, \<^verbatim>\<open>\s\<close> a separator or one of
  U+0009 to U+000D and U+0085. A character of a line is here one of the 256 characters
  U+0000 to U+00FF; \<open>latin1_word\<close> lists the letters and numbers among U+0080 to U+00FF.
  Lines with characters beyond U+00FF are outside this development.
\<close>

definition latin1_word :: string where
  "latin1_word =
    [CHR 0xAA, CHR 0xB2, CHR 0xB3, CHR 0xB5, CHR 0xB9, CHR 0xBA, CHR 0xBC, CHR 0xBD,
     CHR 0xBE, CHR 0xC0, CHR 0xC1, CHR 0xC2, CHR 0xC3, CHR 0xC4, CHR 0xC5, CHR 0xC6,
     CHR 0xC7, CHR 0xC8, CHR 0xC9, CHR 0xCA, CHR 0xCB, CHR 0xCC, CHR 0xCD, CHR 0xCE,
     CHR 0xCF, CHR 0xD0, CHR 0xD1, CHR 0xD2, CHR 0xD3, CHR 0xD4, CHR 0xD5, CHR 0xD6,
     CHR 0xD8, CHR 0xD9, CHR 0xDA, CHR 0xDB, CHR 0xDC, CHR 0xDD, CHR 0xDE, CHR 0xDF,
     CHR 0xE0, CHR 0xE1, CHR 0xE2, CHR 0xE3, CHR 0xE4, CHR 0xE5, CHR 0xE6, CHR 0xE7,
     CHR 0xE8, CHR 0xE9, CHR 0xEA, CHR 0xEB, CHR 0xEC, CHR 0xED, CHR 0xEE, CHR 0xEF,
     CHR 0xF0, CHR 0xF1, CHR 0xF2, CHR 0xF3, CHR 0xF4, CHR 0xF5, CHR 0xF6, CHR 0xF8,
     CHR 0xF9, CHR 0xFA, CHR 0xFB, CHR 0xFC, CHR 0xFD, CHR 0xFE, CHR 0xFF]"

definition is_word :: "char \<Rightarrow> bool" where
  "is_word c = (c \<in> set ''abcdefghijklmnopqrstuvwxyzABCDEFGHIJKLMNOPQRSTUVWXYZ0123456789_'' \<or>
     c \<in> set latin1_word)"

definition is_space :: "char \<Rightarrow> bool" where
  "is_space c =
     (c \<in> set [CHR 0x20, CHR 0x09, CHR 0x0A, CHR 0x0B, CHR 0x0C, CHR 0x0D, CHR 0x85, CHR 0xA0])"

fun cls_ok :: "cls \<Rightarrow> char \<Rightarrow> bool" where
  "cls_ok Digit c = is_digit c"
| "cls_ok WordC c = is_word c"
| "cls_ok SpaceC c = is_space c"
| "cls_ok AnyC c = True"
| "cls_ok (Not d) c = (c \<noteq> d)"

definition word_at :: "string \<Rightarrow> nat \<Rightarrow> bool" where
  "word_at t i = (i < length t \<and> is_word (t ! i))"

definition at_boundary :: "string \<Rightarrow> nat \<Rightarrow> bool" where
  "at_boundary t i = ((0 < i \<and> word_at t (i - 1)) \<noteq> word_at t i)"

text \<open>
  \<open>iter_ends n step xs\<close> closes the positions \<open>xs\<close> under \<open>n\<close> rounds of \<open>step\<close>: the
  positions reachable by at most \<open>n\<close> repetitions of the starred expression.
\<close>

fun iter_ends :: "nat \<Rightarrow> (nat \<Rightarrow> nat list) \<Rightarrow> nat list \<Rightarrow> nat list" where
  "iter_ends 0 step xs = xs"
| "iter_ends (Suc n) step xs = iter_ends n step (remdups (xs @ concat (map step xs)))"

text \<open>
  \<open>ends r t i\<close> lists every position at which a match of \<open>r\<close> that starts at position
  \<open>i\<close> of the line \<open>t\<close> can end.
\<close>

fun ends :: "rx \<Rightarrow> string \<Rightarrow> nat \<Rightarrow> nat list" where
  "ends (Str s) t i = (if take (length s) (drop i t) = s then [i + length s] else [])"
| "ends (Cls k) t i = (if i < length t \<and> cls_ok k (t ! i) then [Suc i] else [])"
| "ends Bnd t i = (if at_boundary t i then [i] else [])"
| "ends (Seq a b) t i = remdups (concat (map (\<lambda>j. ends b t j) (ends a t i)))"
| "ends (Star a) t i = iter_ends (length t - i) (\<lambda>j. ends a t j) [i]"
| "ends (Plus a) t i = iter_ends (length t - i) (\<lambda>j. ends a t j) (ends a t i)"
| "ends (Opt a) t i = remdups (i # ends a t i)"

text \<open>
  \<^verbatim>\<open>indexIn(text, offset)\<close>: the first position from \<open>offset\<close> on at which the expression
  matches, together with \<^verbatim>\<open>matchedLength()\<close>, the length of the longest match there;
  \<open>None\<close> stands for the result \<open>-1\<close>.
\<close>

fun first_match :: "rx \<Rightarrow> string \<Rightarrow> nat list \<Rightarrow> (nat \<times> nat) option" where
  "first_match r t [] = None"
| "first_match r t (i # is) =
     (case ends r t i of [] \<Rightarrow> first_match r t is
      | j # js \<Rightarrow> Some (i, Max (set (j # js)) - i))"

definition indexIn :: "rx \<Rightarrow> string \<Rightarrow> nat \<Rightarrow> (nat \<times> nat) option" where
  "indexIn r t offset = first_match r t [offset ..< Suc (length t)]"

section \<open>PythonSyntaxHighlighter\<close>

datatype color = Blue | Green | Red | Orange | Cyan

type_synonym rule = "rx \<times> color"

text \<open>
  The highlighter's effect on one block: the foreground of every character, and the
  sequence of \<^verbatim>\<open>setFormat\<close> calls (the spans) in the order they were made.
\<close>

record hl_state =
  formats :: "color option list"
  spans :: "(nat \<times> nat \<times> color) list"

definition paint :: "nat \<Rightarrow> nat \<Rightarrow> color \<Rightarrow> color option list \<Rightarrow> color option list" where
  "paint start count c fs =
     map (\<lambda>(k, f). if start \<le> k \<and> k < start + count then Some c else f) (enumerate 0 fs)"

definition setFormat :: "nat \<Rightarrow> nat \<Rightarrow> color \<Rightarrow> hl_state \<Rightarrow> hl_state" where
  "setFormat start count c s =
     \<lparr>formats = paint start count c (formats s), spans = spans s @ [(start, count, c)]\<rparr>"

definition create_rule :: "rx list \<Rightarrow> color \<Rightarrow> rule list \<Rightarrow> rule list" where
  "create_rule patterns c rules = rules @ map (\<lambda>p. (p, c)) patterns"

definition keyword_patterns :: "string list" where
  "keyword_patterns = [''def'', ''class'', ''import'', ''from'', ''as'', ''return'', ''if'', ''elif'',
     ''else'', ''while'', ''for'', ''break'', ''continue'', ''try'', ''except'', ''finally'',
     ''raise'', ''with'', ''lambda'', ''yield'']"

definition comment_rx :: rx where
  "comment_rx = Seq (Str ''#'') (Star (Cls AnyC))"

definition dq_string_rx :: rx where
  "dq_string_rx = Seq (Str [CHR 0x22]) (Seq (Star (Cls (Not (CHR 0x22)))) (Str [CHR 0x22]))"

definition sq_string_rx :: rx where
  "sq_string_rx = Seq (Str [CHR 0x27]) (Seq (Star (Cls (Not (CHR 0x27)))) (Str [CHR 0x27]))"

definition number_rx :: rx where
  "number_rx = Seq Bnd (Seq (Plus (Cls Digit))
     (Seq (Opt (Seq (Str ''.'') (Star (Cls Digit)))) Bnd))"

definition def_name_rx :: rx where
  "def_name_rx = Seq Bnd (Seq (Str ''def'') (Seq (Plus (Cls SpaceC)) (Plus (Cls WordC))))"

definition class_name_rx :: rx where
  "class_name_rx = Seq Bnd (Seq (Str ''class'') (Seq (Plus (Cls SpaceC)) (Plus (Cls WordC))))"

definition highlighting_rules :: "rule list" where
  "highlighting_rules =
     create_rule [def_name_rx, class_name_rx] Cyan
    (create_rule [number_rx] Orange
    (create_rule [dq_string_rx, sq_string_rx] Red
    (create_rule [comment_rx] Green
    (create_rule (map Str keyword_patterns) Blue []))))"

text \<open>
  The inner \<^verbatim>\<open>while index >= 0\<close> loop of \<^verbatim>\<open>highlightBlock\<close>. Nothing in the loop
  bounds it: with a pattern that matches the empty string the index would not move, so the
  loop is a partial function and \<open>None\<close> is "does not return".
\<close>

partial_function (option) scan :: "rx \<Rightarrow> color \<Rightarrow> string \<Rightarrow> (nat \<times> nat) option \<Rightarrow> hl_state \<Rightarrow> hl_state option" where
  "scan r c t m s =
     (case m of None \<Rightarrow> Some s
      | Some (index, len) \<Rightarrow> scan r c t (indexIn r t (index + len)) (setFormat index len c s))"

declare scan.simps [code]

fun run_rules :: "rule list \<Rightarrow> string \<Rightarrow> hl_state \<Rightarrow> hl_state option" where
  "run_rules [] t s = Some s"
| "run_rules ((p, c) # rs) t s =
     (case scan p c t (indexIn p t 0) s of None \<Rightarrow> None | Some s' \<Rightarrow> run_rules rs t s')"

definition init_state :: "string \<Rightarrow> hl_state" where
  "init_state t = \<lparr>formats = replicate (length t) None, spans = []\<rparr>"

definition highlightBlock :: "string \<Rightarrow> hl_state option" where
  "highlightBlock text = run_rules highlighting_rules text (init_state text)"

text \<open>
  The matches the loop of \<^verbatim>\<open>highlightBlock\<close> visits for one expression, from the search
  that starts at \<open>offset\<close>. It is a total function used to state what the loop computes:
  after an empty match the loop would search from the same index again, and the sequence
  stops there.
\<close>

function all_matches :: "rx \<Rightarrow> string \<Rightarrow> nat \<Rightarrow> (nat \<times> nat) list" where
  "all_matches r t offset =
     (case indexIn r t offset of None \<Rightarrow> []
      | Some (index, len) \<Rightarrow>
          (index, len) # (if len = 0 then [] else all_matches r t (index + len)))"
  by pat_completeness auto
termination
proof (relation "measure (\<lambda>(r, t, offset). Suc (length t) - offset)")
  show "wf (measure (\<lambda>(r, t, offset). Suc (length t) - offset))" by simp
next
  fix r :: rx and t :: string and offset :: nat and m :: "nat \<times> nat" and i l :: nat
  assume found: "indexIn r t offset = Some m" and m: "(i, l) = m" and l: "l \<noteq> 0"
  have mem: "first_match r t ks = Some (i, l) \<Longrightarrow> i \<in> set ks" for ks
  proof (induction ks)
    case Nil
    then show ?case by simp
  next
    case (Cons k ks)
    then show ?case by (cases "ends r t k") auto
  qed
  from found m have "first_match r t [offset ..< Suc (length t)] = Some (i, l)"
    by (simp add: indexIn_def)
  then have "i \<in> set [offset ..< Suc (length t)]" by (rule mem)
  then have "offset \<le> i" "i \<le> length t" by auto
  with l have "Suc (length t) - (i + l) < Suc (length t) - offset" by arith
  then show "((r, t, i + l), (r, t, offset)) \<in> measure (\<lambda>(r, t, offset). Suc (length t) - offset)"
    by simp
qed

text \<open>A sufficient syntactic condition for an expression to match no empty range.\<close>

fun nonnull :: "rx \<Rightarrow> bool" where
  "nonnull (Str s) = (s \<noteq> [])"
| "nonnull (Cls k) = True"
| "nonnull Bnd = False"
| "nonnull (Seq a b) = (nonnull a \<or> nonnull b)"
| "nonnull (Star a) = False"
| "nonnull (Plus a) = nonnull a"
| "nonnull (Opt a) = False"

definition rank :: "color \<Rightarrow> nat" where
  "rank c = (case c of Blue \<Rightarrow> 0 | Green \<Rightarrow> 1 | Red \<Rightarrow> 2 | Orange \<Rightarrow> 3 | Cyan \<Rightarrow> 4)"

definition covers :: "nat \<Rightarrow> nat \<times> nat \<times> color \<Rightarrow> bool" where
  "covers i sp = (case sp of (start, count, c) \<Rightarrow> start \<le> i \<and> i < start + count)"

text \<open>
  What \<^verbatim>\<open>highlightBlock\<close> computes when no loop runs forever: every match of every rule,
  in the order of the rules, handed to \<^verbatim>\<open>setFormat\<close>.
\<close>

definition apply_matches :: "color \<Rightarrow> (nat \<times> nat) list \<Rightarrow> hl_state \<Rightarrow> hl_state" where
  "apply_matches c ms s = foldl (\<lambda>s (i, l). setFormat i l c s) s ms"

definition apply_rules :: "rule list \<Rightarrow> string \<Rightarrow> hl_state \<Rightarrow> hl_state" where
  "apply_rules rs t s = foldl (\<lambda>s (p, c). apply_matches c (all_matches p t 0) s) s rs"

text \<open>
  The colour a character ends up with is that of the last span that covers it; the spans
  of one rule are its matches, tagged with its colour.
\<close>

definition span_color :: "nat \<times> nat \<times> color \<Rightarrow> color" where
  "span_color sp = snd (snd sp)"

definition painted :: "(nat \<times> nat \<times> color) list \<Rightarrow> nat \<Rightarrow> color option" where
  "painted sps i = foldl (\<lambda>acc sp. if covers i sp then Some (span_color sp) else acc) None sps"

definition rule_spans :: "string \<Rightarrow> rule \<Rightarrow> (nat \<times> nat \<times> color) list" where
  "rule_spans t r = (case r of (p, c) \<Rightarrow> map (\<lambda>(i, l). (i, l, c)) (all_matches p t 0))"

text \<open>The invariant of the highlighter's state: the colours are those the recorded spans paint.\<close>

definition consistent :: "hl_state \<Rightarrow> bool" where
  "consistent s = (\<forall>i < length (formats s). formats s ! i = painted (spans s) i)"

section \<open>Text files as Python reads and writes them\<close>

text \<open>
  A file holds bytes; the editor's buffer and every Python \<^verbatim>\<open>str\<close> is a list of code
  points. \<^verbatim>\<open>open(name, 'r', encoding=e).read()\<close> decodes the bytes under \<open>e\<close> (strict error
  handling) and translates line endings (universal newlines); \<^verbatim>\<open>open(name, 'w')\<close> encodes
  under the platform's preferred encoding and writes \<^verbatim>\<open>os.linesep\<close> for every newline.
\<close>

type_synonym byte = "8 word"
type_synonym pystr = "nat list"
type_synonym path = string
type_synonym fs = "path \<rightharpoonup> byte list"

datatype encoding = UTF8 | Latin1

datatype exn =
  OSError | UnicodeDecodeError | UnicodeEncodeError | CalledProcessError int pystr | AttributeError
  | OverflowError

definition cont :: "byte \<Rightarrow> bool" where
  "cont b = (0x80 \<le> b \<and> b \<le> 0xBF)"

definition low6 :: "byte \<Rightarrow> nat" where
  "low6 b = unat b - 0x80"

definition second3 :: "byte \<Rightarrow> byte \<Rightarrow> bool" where
  "second3 b b1 =
     (if b = 0xE0 then 0xA0 \<le> b1 \<and> b1 \<le> 0xBF
      else if b = 0xED then 0x80 \<le> b1 \<and> b1 \<le> 0x9F
      else cont b1)"

definition second4 :: "byte \<Rightarrow> byte \<Rightarrow> bool" where
  "second4 b b1 =
     (if b = 0xF0 then 0x90 \<le> b1 \<and> b1 \<le> 0xBF
      else if b = 0xF4 then 0x80 \<le> b1 \<and> b1 \<le> 0x8F
      else cont b1)"

definition push :: "nat \<Rightarrow> exn + pystr \<Rightarrow> exn + pystr" where
  "push c r = (case r of Inl e \<Rightarrow> Inl e | Inr cs \<Rightarrow> Inr (c # cs))"

fun decode_utf8 :: "byte list \<Rightarrow> exn + pystr" where
  "decode_utf8 [] = Inr []"
| "decode_utf8 (b # bs) =
     (if b < 0x80 then push (unat b) (decode_utf8 bs)
      else if 0xC2 \<le> b \<and> b \<le> 0xDF then
        (case bs of
           b1 # r \<Rightarrow>
             if cont b1 then push ((unat b - 0xC0) * 64 + low6 b1) (decode_utf8 r)
             else Inl UnicodeDecodeError
         | _ \<Rightarrow> Inl UnicodeDecodeError)
      else if 0xE0 \<le> b \<and> b \<le> 0xEF then
        (case bs of
           b1 # b2 # r \<Rightarrow>
             if second3 b b1 \<and> cont b2
             then push (((unat b - 0xE0) * 64 + low6 b1) * 64 + low6 b2) (decode_utf8 r)
             else Inl UnicodeDecodeError
         | _ \<Rightarrow> Inl UnicodeDecodeError)
      else if 0xF0 \<le> b \<and> b \<le> 0xF4 then
        (case bs of
           b1 # b2 # b3 # r \<Rightarrow>
             if second4 b b1 \<and> cont b2 \<and> cont b3
             then push ((((unat b - 0xF0) * 64 + low6 b1) * 64 + low6 b2) * 64 + low6 b3)
                    (decode_utf8 r)
             else Inl UnicodeDecodeError
         | _ \<Rightarrow> Inl UnicodeDecodeError)
      else Inl UnicodeDecodeError)"

definition decode :: "encoding \<Rightarrow> byte list \<Rightarrow> exn + pystr" where
  "decode e bs = (case e of UTF8 \<Rightarrow> decode_utf8 bs | Latin1 \<Rightarrow> Inr (map unat bs))"

definition encode_utf8_cp :: "nat \<Rightarrow> byte list option" where
  "encode_utf8_cp c =
     (if c < 0x80 then Some [of_nat c]
      else if c < 0x800 then Some [of_nat (0xC0 + c div 64), of_nat (0x80 + c mod 64)]
      else if c < 0x10000 then
        (if 0xD800 \<le> c \<and> c \<le> 0xDFFF then None
         else Some [of_nat (0xE0 + c div 4096), of_nat (0x80 + c div 64 mod 64),
                    of_nat (0x80 + c mod 64)])
      else if c < 0x110000 then
        Some [of_nat (0xF0 + c div 262144), of_nat (0x80 + c div 4096 mod 64),
              of_nat (0x80 + c div 64 mod 64), of_nat (0x80 + c mod 64)]
      else None)"

definition encode_cp :: "encoding \<Rightarrow> nat \<Rightarrow> byte list option" where
  "encode_cp e c =
     (case e of UTF8 \<Rightarrow> encode_utf8_cp c
      | Latin1 \<Rightarrow> if c < 0x100 then Some [of_nat c] else None)"

fun encode :: "encoding \<Rightarrow> pystr \<Rightarrow> exn + byte list" where
  "encode e [] = Inr []"
| "encode e (c # cs) =
     (case encode_cp e c of None \<Rightarrow> Inl UnicodeEncodeError
      | Some bs \<Rightarrow> (case encode e cs of Inl x \<Rightarrow> Inl x | Inr r \<Rightarrow> Inr (bs @ r)))"

fun universal_newlines :: "pystr \<Rightarrow> pystr" where
  "universal_newlines [] = []"
| "universal_newlines [c] = [if c = 13 then 10 else c]"
| "universal_newlines (c # d # cs) =
     (if c = 13 \<and> d = 10 then 10 # universal_newlines cs
      else if c = 13 then 10 # universal_newlines (d # cs)
      else c # universal_newlines (d # cs))"

definition write_newlines :: "pystr \<Rightarrow> pystr \<Rightarrow> pystr" where
  "write_newlines linesep txt = concat (map (\<lambda>c. if c = 10 then linesep else [c]) txt)"

definition read_text :: "encoding \<Rightarrow> fs \<Rightarrow> path \<Rightarrow> exn + pystr" where
  "read_text e disk name =
     (case disk name of None \<Rightarrow> Inl OSError
      | Some bs \<Rightarrow> (case decode e bs of Inl x \<Rightarrow> Inl x | Inr txt \<Rightarrow> Inr (universal_newlines txt)))"

record platform =
  preferred_encoding :: encoding
  linesep :: pystr

section \<open>MainWindow: save, open and run\<close>

text \<open>
  What a signal can hand to a connected method: nothing, a \<^verbatim>\<open>QRect\<close> (four C ints), a
  \<^verbatim>\<open>QRectF\<close> (four reals, taken as rationals), a Python int, or any other object.
\<close>

datatype payload =
  PNone | PRect "32 word" "32 word" "32 word" "32 word" | PRectF rat rat rat rat | PInt int | PObj

datatype msg = ErrorOpeningFile exn | UnexpectedType payload | ValueOfRect payload

datatype region = Whole | Region int int int int

text \<open>
  The part of the application's state the actions touch: the editor's buffer, what was
  printed on the console, the texts of the output windows opened so far, and the line
  number area's geometry \<open>(x, y, width, height)\<close> with the repaints requested for it.
\<close>

record app =
  buffer :: pystr
  console :: "msg list"
  output_windows :: "pystr list"
  gutter_geometry :: "int \<times> int \<times> int \<times> int"
  gutter_updates :: "region list"

text \<open>
  \<^verbatim>\<open>save_file\<close>: \<open>file_name\<close> is the dialog's answer (empty when cancelled) and \<open>writable\<close>
  says which paths can be opened for writing. \<^verbatim>\<open>open(name, 'w')\<close> names no encoding, so the
  platform's preferred one is used; the file is truncated when it is opened, before
  \<^verbatim>\<open>write\<close> can raise. The result is the exception that escapes, if any, and the disk
  afterwards.
\<close>

definition save_file :: "platform \<Rightarrow> (path \<Rightarrow> bool) \<Rightarrow> path \<Rightarrow> app \<Rightarrow> fs \<Rightarrow> exn option \<times> fs" where
  "save_file pf writable file_name st disk =
     (if file_name = [] then (None, disk)
      else if \<not> writable file_name then (Some OSError, disk)
      else case encode (preferred_encoding pf) (write_newlines (linesep pf) (buffer st)) of
             Inl e \<Rightarrow> (Some e, disk(file_name \<mapsto> []))
           | Inr bs \<Rightarrow> (None, disk(file_name \<mapsto> bs)))"

text \<open>
  \<^verbatim>\<open>open_file\<close>: \<open>disk\<close> is the file system at the first \<^verbatim>\<open>open\<close> and \<open>disk'\<close> at the
  second one. \<open>Inl\<close> is an exception that leaves \<^verbatim>\<open>open_file\<close> unhandled.
\<close>

definition open_file :: "fs \<Rightarrow> fs \<Rightarrow> path \<Rightarrow> app \<Rightarrow> exn + app" where
  "open_file disk disk' file_name st =
     (if file_name = [] then Inr st
      else case read_text UTF8 disk file_name of
             Inr txt \<Rightarrow> Inr (st\<lparr>buffer := txt\<rparr>)
           | Inl UnicodeDecodeError \<Rightarrow>
               (case read_text Latin1 disk' file_name of
                  Inr txt \<Rightarrow> Inr (st\<lparr>buffer := txt\<rparr>)
                | Inl e \<Rightarrow> Inr (st\<lparr>console := console st @ [ErrorOpeningFile e]\<rparr>))
           | Inl e \<Rightarrow> Inl e)"

text \<open>
  \<^verbatim>\<open>run_code\<close>: the interpreter is outside the program, so what starting it on a program
  text does is a parameter: it cannot be started (no program of that name, or the text
  cannot be passed as an argument), or it exits with a return code and the bytes captured
  from its standard output and error. \<^verbatim>\<open>check_output(..., text=True)\<close> decodes the captured
  bytes under the platform's preferred encoding (strict) and translates line endings, and
  only then looks at the return code.
\<close>

datatype proc = NotStarted | Exited int "byte list"

definition check_output :: "platform \<Rightarrow> proc \<Rightarrow> exn + pystr" where
  "check_output pf p =
     (case p of NotStarted \<Rightarrow> Inl OSError
      | Exited rc bs \<Rightarrow>
          (case decode (preferred_encoding pf) bs of
             Inl e \<Rightarrow> Inl e
           | Inr txt \<Rightarrow>
               if rc = 0 then Inr (universal_newlines txt)
               else Inl (CalledProcessError rc (universal_newlines txt))))"

definition show_output :: "pystr \<Rightarrow> app \<Rightarrow> app" where
  "show_output out st = st\<lparr>output_windows := output_windows st @ [out]\<rparr>"

definition run_code :: "platform \<Rightarrow> (pystr \<Rightarrow> proc) \<Rightarrow> app \<Rightarrow> exn + app" where
  "run_code pf python st =
     (case check_output pf (python (buffer st)) of
        Inr out \<Rightarrow> Inr (show_output out st)
      | Inl (CalledProcessError rc out) \<Rightarrow> Inr (show_output out st)
      | Inl e \<Rightarrow> Inl e)"

text \<open>
  Two runs used as examples: one that exits with a given return code after writing given
  bytes, and an interpreter that cannot be started.
\<close>

definition exits_with :: "int \<Rightarrow> byte list \<Rightarrow> pystr \<Rightarrow> proc" where
  "exits_with rc bs code = Exited rc bs"

definition cannot_start :: "pystr \<Rightarrow> proc" where
  "cannot_start code = NotStarted"

section \<open>CodeEditor: requests to repaint the line number area\<close>

text \<open>
  A signal hands its arguments to the connected method: \<^verbatim>\<open>blockCountChanged\<close> carries the
  new block count, \<^verbatim>\<open>updateRequest\<close> a rectangle. Reading \<^verbatim>\<open>y()\<close> or \<^verbatim>\<open>height()\<close> of
  something that is no rectangle raises.
\<close>

definition is_QRect :: "payload \<Rightarrow> bool" where
  "is_QRect p = (case p of PRect x y w h \<Rightarrow> True | _ \<Rightarrow> False)"

definition is_QRectF :: "payload \<Rightarrow> bool" where
  "is_QRectF p = (case p of PRectF x y w h \<Rightarrow> True | _ \<Rightarrow> False)"

definition to_QRectF :: "payload \<Rightarrow> payload" where
  "to_QRectF p =
     (case p of
        PRect x y w h \<Rightarrow> PRectF (of_int (sint x)) (of_int (sint y)) (of_int (sint w)) (of_int (sint h))
      | _ \<Rightarrow> p)"

definition rect_y :: "payload \<Rightarrow> exn + rat" where
  "rect_y p = (case p of PRect x y w h \<Rightarrow> Inr (of_int (sint y)) | PRectF x y w h \<Rightarrow> Inr y | _ \<Rightarrow> Inl AttributeError)"

definition rect_height :: "payload \<Rightarrow> exn + rat" where
  "rect_height p = (case p of PRect x y w h \<Rightarrow> Inr (of_int (sint h)) | PRectF x y w h \<Rightarrow> Inr h | _ \<Rightarrow> Inl AttributeError)"

definition py_int :: "rat \<Rightarrow> int" where
  "py_int q = (if 0 \<le> q then \<lfloor>q\<rfloor> else \<lceil>q\<rceil>)"

definition gutter_width :: int where
  "gutter_width = 40"

text \<open>
  \<^verbatim>\<open>line_number_area.update(0, int(rect.y()), width, int(rect.height()))\<close>: the widget's
  \<^verbatim>\<open>update\<close> takes C ints, and an argument out of their range raises.
\<close>

definition c_int :: "int \<Rightarrow> bool" where
  "c_int i = (- 2147483648 \<le> i \<and> i \<le> 2147483647)"

definition request_region :: "payload \<Rightarrow> app \<Rightarrow> exn + app" where
  "request_region r st =
     (case rect_y r of Inl e \<Rightarrow> Inl e
      | Inr y \<Rightarrow>
         (case rect_height r of Inl e \<Rightarrow> Inl e
          | Inr h \<Rightarrow>
              if c_int (py_int y) \<and> c_int (py_int h) then
                Inr (st\<lparr>gutter_updates :=
                       gutter_updates st @ [Region 0 (py_int y) gutter_width (py_int h)]\<rparr>)
              else Inl OverflowError))"

text \<open>\<open>cr\<close> is the editor's \<^verbatim>\<open>contentsRect()\<close> as \<open>(left, top, width, height)\<close>.\<close>

definition update_line_number_area :: "int \<times> int \<times> int \<times> int \<Rightarrow> payload \<Rightarrow> app \<Rightarrow> exn + app" where
  "update_line_number_area cr rect st =
     (if rect = PNone then
        (case cr of (l, t, w, h) \<Rightarrow>
           Inr (st\<lparr>gutter_geometry := (l, t, 40, h),
                   gutter_updates := gutter_updates st @ [Whole]\<rparr>))
      else if is_QRect rect then request_region (to_QRectF rect) st
      else if \<not> is_QRectF rect then Inr st
      else request_region rect st)"

definition handle_update_request :: "int \<times> int \<times> int \<times> int \<Rightarrow> payload \<Rightarrow> app \<Rightarrow> exn + app" where
  "handle_update_request cr rect st =
     (if is_QRect rect \<or> is_QRectF rect then update_line_number_area cr rect st
      else Inr (st\<lparr>console := console st @ [UnexpectedType rect, ValueOfRect rect]\<rparr>))"

text \<open>
  The connections of \<^verbatim>\<open>CodeEditor.__init__\<close> and \<^verbatim>\<open>resizeEvent\<close>: what the editor does when
  the toolkit delivers an event.
\<close>

datatype event = BlockCountChanged int | UpdateRequest payload | Resize

definition on_event :: "int \<times> int \<times> int \<times> int \<Rightarrow> event \<Rightarrow> app \<Rightarrow> exn + app" where
  "on_event cr ev st =
     (case ev of
        BlockCountChanged n \<Rightarrow> update_line_number_area cr (PInt n) st
      | UpdateRequest r \<Rightarrow> handle_update_request cr r st
      | Resize \<Rightarrow> update_line_number_area cr PNone st)"



section \<open>LineNumberArea.paintEvent\<close>




text \<open>
  The application as \<^verbatim>\<open>MainWindow.__init__\<close> leaves it: an empty buffer, nothing printed, no
  output window, nothing requested of the line number area.
\<close>

definition initial_app :: app where
  "initial_app = \<lparr>buffer = [], console = [], output_windows = [],
                    gutter_geometry = (0, 0, 40, 600), gutter_updates = []\<rparr>"

section \<open>The highlighter: what the matcher and the loop guarantee\<close>

lemma first_match_Some:
  "first_match r t is = Some (i, l) \<Longrightarrow> i \<in> set is \<and> ends r t i \<noteq> [] \<and> l = Max (set (ends r t i)) - i"
proof (induction "is")
  case Nil
  then show ?case by simp
next
  case (Cons a "is")
  show ?case
  proof (cases "ends r t a")
    case Nil
    with Cons show ?thesis by simp
  next
    case (Cons j js)
    with Cons.prems show ?thesis by auto
  qed
qed

lemma indexIn_range:
  "indexIn r t off = Some (i, l) \<Longrightarrow> off \<le> i \<and> i \<le> length t"
  unfolding indexIn_def by (drule first_match_Some) auto

lemma iter_ends_subset:
  assumes "set xs \<subseteq> S" and "\<And>x. x \<in> S \<Longrightarrow> set (step x) \<subseteq> S"
  shows "set (iter_ends n step xs) \<subseteq> S"
  using assms
proof (induction n arbitrary: xs)
  case 0
  then show ?case by simp
next
  case (Suc n)
  have "set (remdups (xs @ concat (map step xs))) \<subseteq> S"
    using Suc.prems by auto
  then show ?case using Suc.IH Suc.prems(2) by simp
qed

lemma set_ends_Seq: "set (ends (Seq a b) t i) = (\<Union>k \<in> set (ends a t i). set (ends b t k))"
  by simp

lemma set_ends_Opt: "set (ends (Opt a) t i) = insert i (set (ends a t i))"
  by auto

lemma ends_ge: "j \<in> set (ends r t i) \<Longrightarrow> i \<le> j"
proof (induction r arbitrary: i j)
  case (Str s)
  then show ?case by (cases "take (length s) (drop i t) = s") simp_all
next
  case (Cls k)
  then show ?case by (simp split: if_splits)
next
  case Bnd
  then show ?case by (simp split: if_splits)
next
  case (Opt r)
  from Opt.prems have "j = i \<or> j \<in> set (ends r t i)" unfolding set_ends_Opt by simp
  then show ?case by (auto dest: Opt.IH)
next
  case (Star r)
  have "set (iter_ends (length t - i) (\<lambda>j. ends r t j) [i]) \<subseteq> {j. i \<le> j}"
    by (rule iter_ends_subset) (auto dest: Star.IH)
  with Star.prems show ?case by auto
next
  case (Plus r)
  have "set (iter_ends (length t - i) (\<lambda>j. ends r t j) (ends r t i)) \<subseteq> {j. i \<le> j}"
    by (rule iter_ends_subset) (auto dest: Plus.IH)
  with Plus.prems show ?case by auto
next
  case (Seq a b)
  from Seq.prems obtain k where k: "k \<in> set (ends a t i)" "j \<in> set (ends b t k)"
    unfolding set_ends_Seq by blast
  then have "i \<le> k" "k \<le> j" by (auto dest: Seq.IH)
  then show ?case by simp
qed

lemma ends_le: "j \<in> set (ends r t i) \<Longrightarrow> i \<le> length t \<Longrightarrow> j \<le> length t"
proof (induction r arbitrary: i j)
  case (Str s)
  show ?case
  proof (cases "take (length s) (drop i t) = s")
    case True
    then have "length s = length (take (length s) (drop i t))" by simp
    then have "length s \<le> length t - i" by simp
    with Str True show ?thesis by simp
  next
    case False
    with Str show ?thesis by simp
  qed
next
  case (Cls k)
  then show ?case by (simp split: if_splits)
next
  case Bnd
  then show ?case by (simp split: if_splits)
next
  case (Opt r)
  from Opt.prems have "j = i \<or> j \<in> set (ends r t i)" unfolding set_ends_Opt by simp
  then show ?case using Opt.prems(2) by (auto dest: Opt.IH)
next
  case (Star r)
  have "set (iter_ends (length t - i) (\<lambda>j. ends r t j) [i]) \<subseteq> {j. j \<le> length t}"
    using Star.prems(2) by (intro iter_ends_subset) (auto dest: Star.IH)
  with Star.prems show ?case by auto
next
  case (Plus r)
  have "set (iter_ends (length t - i) (\<lambda>j. ends r t j) (ends r t i)) \<subseteq> {j. j \<le> length t}"
    using Plus.prems(2) by (intro iter_ends_subset) (auto dest: Plus.IH)
  with Plus.prems show ?case by auto
next
  case (Seq a b)
  from Seq.prems obtain k where k: "k \<in> set (ends a t i)" "j \<in> set (ends b t k)"
    unfolding set_ends_Seq by blast
  from k(1) Seq.prems(2) have "k \<le> length t" by (rule Seq.IH(1))
  with k(2) show ?case by (rule Seq.IH(2))
qed

lemma ends_gt: "nonnull r \<Longrightarrow> j \<in> set (ends r t i) \<Longrightarrow> i < j"
proof (induction r arbitrary: i j)
  case (Plus r)
  have "set (iter_ends (length t - i) (\<lambda>j. ends r t j) (ends r t i)) \<subseteq> {j. i < j}"
  proof (rule iter_ends_subset)
    show "set (ends r t i) \<subseteq> {j. i < j}" using Plus.prems(1) by (auto dest: Plus.IH)
  next
    fix x assume "x \<in> {j. i < j}"
    then show "set (ends r t x) \<subseteq> {j. i < j}" by (auto dest: ends_ge)
  qed
  with Plus.prems show ?case by auto
next
  case (Seq a b)
  from Seq.prems(2) obtain k where k: "k \<in> set (ends a t i)" "j \<in> set (ends b t k)"
    unfolding set_ends_Seq by blast
  from Seq.prems(1) have "nonnull a \<or> nonnull b" by simp
  then show ?case
  proof
    assume "nonnull a"
    with k have "i < k" "k \<le> j" by (auto dest: Seq.IH(1) ends_ge)
    then show ?thesis by simp
  next
    assume "nonnull b"
    with k have "i \<le> k" "k < j" by (auto dest: Seq.IH(2) ends_ge)
    then show ?thesis by simp
  qed
next
  case (Str s)
  then have "s \<noteq> []" "j = i + length s" by (simp_all split: if_splits)
  then show ?case by simp
next
  case (Cls k)
  then show ?case by (simp split: if_splits)
qed simp_all

lemma indexIn_nonnull:
  assumes "nonnull r" and "indexIn r t off = Some (i, l)"
  shows "off \<le> i \<and> 0 < l \<and> i + l \<le> length t"
proof -
  from assms(2) have m: "i \<in> set [off ..< Suc (length t)]" "ends r t i \<noteq> []"
    "l = Max (set (ends r t i)) - i"
    unfolding indexIn_def by (auto dest: first_match_Some)
  then have "Max (set (ends r t i)) \<in> set (ends r t i)" by (intro Max_in) simp_all
  then have "i < Max (set (ends r t i))" "Max (set (ends r t i)) \<le> length t"
    using assms(1) m(1) by (auto dest: ends_gt ends_le)
  with m show ?thesis by simp
qed

lemma scan_all_matches:
  "nonnull r \<Longrightarrow> scan r c t (indexIn r t off) s =
     Some (foldl (\<lambda>s (i, l). setFormat i l c s) s (all_matches r t off))"
proof (induction r t off arbitrary: s rule: all_matches.induct)
  case (1 r t offset)
  show ?case
  proof (cases "indexIn r t offset")
    case None
    then show ?thesis by (subst scan.simps) simp
  next
    case (Some m)
    obtain i l where m: "m = (i, l)" by (cases m)
    with Some 1(2) have l: "0 < l" by (auto dest: indexIn_nonnull)
    have "scan r c t (indexIn r t (i + l)) (setFormat i l c s) =
      Some (foldl (\<lambda>s (i, l). setFormat i l c s) (setFormat i l c s) (all_matches r t (i + l)))"
      using 1(1)[OF Some m[symmetric] _ 1(2)] l by simp
    then show ?thesis using Some m l
      by (subst scan.simps, subst all_matches.simps) simp
  qed
qed

lemma nonnull_rules: "(p, c) \<in> set highlighting_rules \<Longrightarrow> nonnull p"
  unfolding highlighting_rules_def create_rule_def keyword_patterns_def comment_rx_def
    dq_string_rx_def sq_string_rx_def number_rx_def def_name_rx_def class_name_rx_def
  by auto

lemma run_rules_total:
  "\<forall>r \<in> set rs. nonnull (fst r) \<Longrightarrow> run_rules rs t s = Some (apply_rules rs t s)"
proof (induction rs arbitrary: s)
  case Nil
  then show ?case by (simp add: apply_rules_def)
next
  case (Cons r rs)
  obtain p c where r: "r = (p, c)" by (cases r)
  have "nonnull p" using Cons.prems r by simp
  then have "scan p c t (indexIn p t 0) s = Some (apply_matches c (all_matches p t 0) s)"
    unfolding apply_matches_def by (rule scan_all_matches)
  moreover have "run_rules rs t (apply_matches c (all_matches p t 0) s)
      = Some (apply_rules rs t (apply_matches c (all_matches p t 0) s))"
    using Cons.prems by (intro Cons.IH) simp
  ultimately show ?case using r by (simp add: apply_rules_def)
qed

lemma highlightBlock_total:
  "highlightBlock t = Some (apply_rules highlighting_rules t (init_state t))"
  unfolding highlightBlock_def by (rule run_rules_total) (auto dest: nonnull_rules)

text \<open>
  Claim C9. For every line, \<^verbatim>\<open>highlightBlock\<close> returns; every match of a registered
  pattern ends strictly after its start, and every search result lies at or after the offset
  searched from, has positive length and ends within the line, so the scan index grows
  strictly and is bounded by the length of the line.
\<close>

theorem highlightBlock_terminates:
  "(\<exists>s. highlightBlock t = Some s) \<and>
   (\<forall>(p, c) \<in> set highlighting_rules. \<forall>i j. j \<in> set (ends p t i) \<longrightarrow> i < j) \<and>
   (\<forall>(p, c) \<in> set highlighting_rules. \<forall>offset index len.
       indexIn p t offset = Some (index, len) \<longrightarrow>
         offset \<le> index \<and> index < index + len \<and> index + len \<le> length t)"
proof (intro conjI)
  show "\<exists>s. highlightBlock t = Some s" by (simp add: highlightBlock_total)
next
  show "\<forall>(p, c) \<in> set highlighting_rules. \<forall>i j. j \<in> set (ends p t i) \<longrightarrow> i < j"
    by (auto dest: nonnull_rules ends_gt)
next
  show "\<forall>(p, c) \<in> set highlighting_rules. \<forall>offset index len.
       indexIn p t offset = Some (index, len) \<longrightarrow>
         offset \<le> index \<and> index < index + len \<and> index + len \<le> length t"
  proof (clarify)
    fix p c offset index len
    assume "(p, c) \<in> set highlighting_rules" "indexIn p t offset = Some (index, len)"
    then have "offset \<le> index \<and> 0 < len \<and> index + len \<le> length t"
      by (intro indexIn_nonnull) (auto dest: nonnull_rules)
    then show "offset \<le> index \<and> index < index + len \<and> index + len \<le> length t" by simp
  qed
qed

theorem highlightBlock_terminates_witness:
  "(\<exists>s. highlightBlock ''x = 12'' = Some s) \<and>
   (number_rx, Orange) \<in> set highlighting_rules \<and>
   6 \<in> set (ends number_rx ''x = 12'' 4) \<and> (4::nat) < 6 \<and>
   indexIn number_rx ''x = 12'' 0 = Some (4, 2) \<and> 4 + 2 \<le> length ''x = 12''"
proof -
  have r: "(number_rx, Orange) \<in> set highlighting_rules"
    by (simp add: highlighting_rules_def create_rule_def)
  have e: "6 \<in> set (ends number_rx ''x = 12'' 4)" by code_simp
  have m: "indexIn number_rx ''x = 12'' 0 = Some (4, 2)" by code_simp
  from highlightBlock_terminates [of "''x = 12''"] r e m show ?thesis by auto
qed

section \<open>Overlapping rules: the colour a character ends up with\<close>

lemma length_paint: "length (paint start count c fs) = length fs"
  by (simp add: paint_def)

lemma nth_paint:
  "i < length fs \<Longrightarrow>
   paint start count c fs ! i = (if start \<le> i \<and> i < start + count then Some c else fs ! i)"
  by (simp add: paint_def nth_enumerate_eq)

lemma painted_snoc:
  "painted (sps @ [sp]) i = (if covers i sp then Some (span_color sp) else painted sps i)"
  by (simp add: painted_def)

lemma consistent_setFormat: "consistent s \<Longrightarrow> consistent (setFormat i l c s)"
  by (auto simp: consistent_def setFormat_def length_paint nth_paint painted_snoc covers_def span_color_def)

lemma length_setFormat: "length (formats (setFormat i l c s)) = length (formats s)"
  by (simp add: setFormat_def length_paint)

lemma spans_setFormat: "spans (setFormat i l c s) = spans s @ [(i, l, c)]"
  by (simp add: setFormat_def)

lemma apply_matches_props:
  "spans (apply_matches c ms s) = spans s @ map (\<lambda>(i, l). (i, l, c)) ms \<and>
   length (formats (apply_matches c ms s)) = length (formats s) \<and>
   (consistent s \<longrightarrow> consistent (apply_matches c ms s))"
proof (induction ms arbitrary: s)
  case Nil
  then show ?case by (simp add: apply_matches_def)
next
  case (Cons m ms)
  obtain i l where m: "m = (i, l)" by (cases m)
  have step: "apply_matches c (m # ms) s = apply_matches c ms (setFormat i l c s)"
    by (simp add: apply_matches_def m)
  show ?case unfolding step using Cons.IH[of "setFormat i l c s"]
    by (simp add: spans_setFormat length_setFormat consistent_setFormat m)
qed

lemma apply_rules_props:
  "spans (apply_rules rs t s) = spans s @ concat (map (rule_spans t) rs) \<and>
   length (formats (apply_rules rs t s)) = length (formats s) \<and>
   (consistent s \<longrightarrow> consistent (apply_rules rs t s))"
proof (induction rs arbitrary: s)
  case Nil
  then show ?case by (simp add: apply_rules_def)
next
  case (Cons r rs)
  obtain p c where r: "r = (p, c)" by (cases r)
  have step: "apply_rules (r # rs) t s = apply_rules rs t (apply_matches c (all_matches p t 0) s)"
    by (simp add: apply_rules_def r)
  show ?case unfolding step
    using Cons.IH[of "apply_matches c (all_matches p t 0) s"]
      apply_matches_props[of c "all_matches p t 0" s]
    by (simp add: r rule_spans_def)
qed

lemma consistent_init: "consistent (init_state t)"
  by (simp add: consistent_def init_state_def painted_def)

lemma sorted_one_color:
  "sorted (map (\<lambda>sp. rank (span_color sp)) (map (\<lambda>(i, l). (i, l, c)) ms))"
  by (induction ms) (auto simp: span_color_def)

lemma color_rule_spans: "y \<in> set (rule_spans t q) \<Longrightarrow> span_color y = snd q"
  by (cases q) (auto simp: rule_spans_def span_color_def)

lemma sorted_rule_spans:
  "sorted (map (\<lambda>r. rank (snd r)) rs) \<Longrightarrow>
   sorted (map (\<lambda>sp. rank (span_color sp)) (concat (map (rule_spans t) rs)))"
proof (induction rs)
  case Nil
  then show ?case by simp
next
  case (Cons r rs)
  obtain p c where r: "r = (p, c)" by (cases r)
  have le: "\<forall>q \<in> set rs. rank (snd r) \<le> rank (snd q)" using Cons.prems by simp
  have e: "rank (span_color x) \<le> rank (span_color y)"
    if "x \<in> set (rule_spans t r)" "q \<in> set rs" "y \<in> set (rule_spans t q)" for x y q
  proof -
    have "span_color x = snd r" using that(1) by (rule color_rule_spans)
    moreover have "span_color y = snd q" using that(3) by (rule color_rule_spans)
    ultimately show ?thesis using le that(2) by simp
  qed
  have c: "sorted (map (\<lambda>sp. rank (span_color sp)) (rule_spans t r))"
    unfolding r rule_spans_def prod.case by (rule sorted_one_color)
  have d: "sorted (map (\<lambda>sp. rank (span_color sp)) (concat (map (rule_spans t) rs)))"
    using Cons by simp
  show ?case
    using c d e by (simp add: sorted_map sorted_wrt_append)
qed

lemma sorted_rules: "sorted (map (\<lambda>r. rank (snd r)) highlighting_rules)"
  by (simp add: highlighting_rules_def create_rule_def keyword_patterns_def rank_def)

lemma rank_inj: "rank a = rank b \<Longrightarrow> a = b"
  by (cases a; cases b) (simp_all add: rank_def)

lemma painted_top:
  "sorted (map (\<lambda>sp. rank (span_color sp)) sps) \<Longrightarrow> sp \<in> set sps \<Longrightarrow> covers i sp \<Longrightarrow>
   \<forall>x \<in> set sps. covers i x \<longrightarrow> rank (span_color x) \<le> rank (span_color sp) \<Longrightarrow>
   painted sps i = Some (span_color sp)"
proof (induction sps rule: rev_induct)
  case Nil
  then show ?case by simp
next
  case (snoc x xs)
  show ?case
  proof (cases "covers i x")
    case True
    have "rank (span_color x) \<le> rank (span_color sp)" using snoc.prems(4) True by simp
    moreover have "rank (span_color sp) \<le> rank (span_color x)"
      using snoc.prems(1,2) by (auto simp: sorted_append)
    ultimately have "span_color x = span_color sp" by (intro rank_inj) simp
    then show ?thesis using True by (simp add: painted_snoc)
  next
    case False
    with snoc.prems(2,3) have m: "sp \<in> set xs" by auto
    have "painted xs i = Some (span_color sp)"
      using snoc.prems(1,3,4) m by (intro snoc.IH) (simp_all add: sorted_append)
    then show ?thesis using False by (simp add: painted_snoc)
  qed
qed

text \<open>
  Claim C3. \<^verbatim>\<open>highlightBlock\<close> returns a state whose spans are the matches of the rules
  in registration order (twenty keyword patterns, the comment pattern, the two string
  patterns, the number pattern, the two def/class patterns); every character has the colour
  of the last span covering it; so where spans of several rules overlap on a character, it
  gets the colour of the covering rule registered last.
\<close>

theorem last_rule_wins:
  "\<exists>s. highlightBlock t = Some s \<and>
     spans s = concat (map (rule_spans t) highlighting_rules) \<and>
     map snd highlighting_rules = replicate 20 Blue @ [Green, Red, Red, Orange, Cyan, Cyan] \<and>
     length (formats s) = length t \<and>
     (\<forall>i < length t. formats s ! i = painted (spans s) i) \<and>
     (\<forall>i < length t. \<forall>sp \<in> set (spans s).
        covers i sp \<and> (\<forall>x \<in> set (spans s). covers i x \<longrightarrow> rank (span_color x) \<le> rank (span_color sp))
        \<longrightarrow> formats s ! i = Some (span_color sp))"
proof -
  let ?s = "apply_rules highlighting_rules t (init_state t)"
  have run: "highlightBlock t = Some ?s" by (rule highlightBlock_total)
  have sp: "spans ?s = concat (map (rule_spans t) highlighting_rules)"
    using apply_rules_props[of highlighting_rules t "init_state t"] by (simp add: init_state_def)
  have len: "length (formats ?s) = length t"
    using apply_rules_props[of highlighting_rules t "init_state t"] by (simp add: init_state_def)
  have con: "consistent ?s"
    using apply_rules_props[of highlighting_rules t "init_state t"] consistent_init by simp
  have order: "map snd highlighting_rules = replicate 20 Blue @ [Green, Red, Red, Orange, Cyan, Cyan]"
    by (simp add: highlighting_rules_def create_rule_def keyword_patterns_def eval_nat_numeral)
  have pt: "\<forall>i < length t. formats ?s ! i = painted (spans ?s) i"
    using con len by (simp add: consistent_def)
  have srt: "sorted (map (\<lambda>sp. rank (span_color sp)) (spans ?s))"
    unfolding sp using sorted_rules by (rule sorted_rule_spans)
  have top: "\<forall>i < length t. \<forall>sp \<in> set (spans ?s).
        covers i sp \<and> (\<forall>x \<in> set (spans ?s). covers i x \<longrightarrow> rank (span_color x) \<le> rank (span_color sp))
        \<longrightarrow> formats ?s ! i = Some (span_color sp)"
  proof (intro allI impI ballI)
    fix i sp
    assume i: "i < length t" and m: "sp \<in> set (spans ?s)"
      and c: "covers i sp \<and> (\<forall>x \<in> set (spans ?s). covers i x \<longrightarrow> rank (span_color x) \<le> rank (span_color sp))"
    have "painted (spans ?s) i = Some (span_color sp)"
      using srt m c by (intro painted_top) simp_all
    with pt i show "formats ?s ! i = Some (span_color sp)" by simp
  qed
  show ?thesis
    by (rule exI[of _ ?s]) (intro conjI run sp order len pt top)
qed

theorem last_rule_wins_witness:
  "\<exists>s. highlightBlock ''def f'' = Some s \<and> spans s = [(0, 3, Blue), (0, 5, Cyan)] \<and>
     covers 1 (0, 3, Blue) \<and> covers 1 (0, 5, Cyan) \<and> rank Blue \<le> rank Cyan \<and>
     formats s ! 1 = Some Cyan"
proof -
  have run: "highlightBlock ''def f'' =
      Some \<lparr>formats = [Some Cyan, Some Cyan, Some Cyan, Some Cyan, Some Cyan],
            spans = [(0, 3, Blue), (0, 5, Cyan)]\<rparr>"
    by code_simp
  from last_rule_wins [of "''def f''"] obtain s where s: "highlightBlock ''def f'' = Some s"
    and top: "\<forall>i < length ''def f''. \<forall>sp \<in> set (spans s).
        covers i sp \<and> (\<forall>x \<in> set (spans s). covers i x \<longrightarrow> rank (span_color x) \<le> rank (span_color sp))
        \<longrightarrow> formats s ! i = Some (span_color sp)"
    by blast
  from s run have "s = \<lparr>formats = [Some Cyan, Some Cyan, Some Cyan, Some Cyan, Some Cyan],
      spans = [(0, 3, Blue), (0, 5, Cyan)]\<rparr>"
    by simp
  then have sp: "spans s = [(0, 3, Blue), (0, 5, Cyan)]" by simp
  have c: "covers 1 (0, 3, Blue)" "covers 1 (0, 5, Cyan)" "rank Blue \<le> rank Cyan"
    by (simp_all add: covers_def rank_def)
  have "formats s ! 1 = Some (span_color (0, 5, Cyan))"
    using top [rule_format, of 1 "(0, 5, Cyan)"] sp c by (simp add: span_color_def)
  then have "formats s ! 1 = Some Cyan" by (simp add: span_color_def)
  with s sp c show ?thesis by blast
qed

section \<open>Keywords inside identifiers\<close>

text \<open>
  Claim C2. The keyword patterns are the bare words, without the \<^verbatim>\<open>\b\<close> that the number and
  def/class patterns carry, so a keyword is found inside a longer identifier: on the line
  \<^verbatim>\<open>pass\<close> the only span is the \<^verbatim>\<open>as\<close> in the middle of the word, and the keyword
  \<^verbatim>\<open>pass\<close> itself (not in the keyword list) gets none.
\<close>

theorem keyword_inside_identifier:
  "highlightBlock ''pass'' =
     Some \<lparr>formats = [None, Some Blue, Some Blue, None], spans = [(1, 2, Blue)]\<rparr>"
  by code_simp

section \<open>Opening, saving and running\<close>

text \<open>
  Claim C1. The outer \<^verbatim>\<open>try\<close> of \<^verbatim>\<open>open_file\<close> handles \<^verbatim>\<open>UnicodeDecodeError\<close> only: when the
  chosen file cannot be read at all, the \<^verbatim>\<open>OSError\<close> of the first \<^verbatim>\<open>open\<close> leaves
  \<^verbatim>\<open>open_file\<close> unhandled and nothing is reported.
\<close>

theorem open_file_unreadable:
  "open_file Map.empty Map.empty ''gone.py'' (initial_app\<lparr>buffer := [120]\<rparr>) = Inl OSError"
  by (simp add: open_file_def read_text_def)

text \<open>
  Claim C4. \<^verbatim>\<open>save_file\<close> writes under the platform's preferred encoding and \<^verbatim>\<open>open_file\<close>
  reads UTF-8 first. Where the preferred encoding is Latin-1 and the path is writable, saving the two characters
  U+00C3 U+00A9 writes the bytes \<open>C3 A9\<close>, which are valid UTF-8 for the single character
  U+00E9: opening the file shows a text different from the one that was saved.
\<close>

theorem save_open_differs:
  "fst (save_file \<lparr>preferred_encoding = Latin1, linesep = [10]\<rparr> (\<lambda>name. True)
          ''a.py'' (initial_app\<lparr>buffer := [0xC3, 0xA9]\<rparr>) Map.empty) = None \<and>
   snd (save_file \<lparr>preferred_encoding = Latin1, linesep = [10]\<rparr> (\<lambda>name. True)
          ''a.py'' (initial_app\<lparr>buffer := [0xC3, 0xA9]\<rparr>) Map.empty) ''a.py'' =
     Some [0xC3, 0xA9] \<and>
   open_file
     (snd (save_file \<lparr>preferred_encoding = Latin1, linesep = [10]\<rparr> (\<lambda>name. True)
             ''a.py'' (initial_app\<lparr>buffer := [0xC3, 0xA9]\<rparr>) Map.empty))
     (snd (save_file \<lparr>preferred_encoding = Latin1, linesep = [10]\<rparr> (\<lambda>name. True)
             ''a.py'' (initial_app\<lparr>buffer := [0xC3, 0xA9]\<rparr>) Map.empty))
     ''a.py'' (initial_app\<lparr>buffer := [0xC3, 0xA9]\<rparr>) =
   Inr (initial_app\<lparr>buffer := [0xE9]\<rparr>)"
  by (simp add: save_file_def open_file_def read_text_def write_newlines_def encode_cp_def
      decode_def cont_def low6_def push_def initial_app_def)

lemma universal_newlines_append:
  "\<not> (xs \<noteq> [] \<and> last xs = 13 \<and> ys \<noteq> [] \<and> hd ys = 10) \<Longrightarrow>
   universal_newlines (xs @ ys) = universal_newlines xs @ universal_newlines ys"
proof (induction xs rule: universal_newlines.induct)
  case 1
  then show ?case by simp
next
  case (2 c)
  then show ?case by (cases ys) auto
next
  case (3 c d cs)
  then show ?case by (auto split: if_splits)
qed

lemma universal_newlines_id: "13 \<notin> set w \<Longrightarrow> universal_newlines w = w"
  by (induction w rule: universal_newlines.induct) auto

lemma universal_newlines_keeps:
  assumes "w \<noteq> []" "13 \<notin> set w" "10 \<notin> set w"
  shows "universal_newlines (pre @ w @ post) =
     universal_newlines pre @ w @ universal_newlines post"
proof -
  from assms have h: "hd w \<noteq> 10" "last w \<noteq> 13" by (metis hd_in_set, metis last_in_set)
  from assms(1) h(1) have "universal_newlines (pre @ w @ post) =
      universal_newlines pre @ universal_newlines (w @ post)"
    by (intro universal_newlines_append) simp
  moreover from assms(1) h(2) have "universal_newlines (w @ post) =
      universal_newlines w @ universal_newlines post"
    by (intro universal_newlines_append) simp
  ultimately show ?thesis using assms(2) by (simp add: universal_newlines_id)
qed

lemma run_code_Exited:
  "python (buffer st) = Exited rc bs \<Longrightarrow> decode (preferred_encoding pf) bs = Inr txt \<Longrightarrow>
   run_code pf python st = Inr (st\<lparr>output_windows := output_windows st @ [universal_newlines txt]\<rparr>)"
  by (simp add: run_code_def check_output_def show_output_def)

text \<open>
  The captured bytes are decoded before anything is shown. A run that writes the byte
  \<open>FF\<close> and exits with return code 1, where the preferred encoding is UTF-8, leaves
  \<^verbatim>\<open>run_code\<close> with \<^verbatim>\<open>UnicodeDecodeError\<close> and no output window: Claim C5 does not hold for
  every run.
\<close>

theorem undecodable_output_escapes:
  "run_code \<lparr>preferred_encoding = UTF8, linesep = [10]\<rparr> (exits_with 1 [0xFF])
     (initial_app\<lparr>buffer := [105, 109, 112, 111, 114, 116, 32, 111, 115, 59, 111, 115, 46, 119, 114, 105, 116, 101, 40, 49, 44, 98, 39, 92, 120, 102, 102, 39, 41, 59, 101, 120, 105, 116, 40, 49, 41]\<rparr>) = Inl UnicodeDecodeError"
  by (simp add: run_code_def check_output_def exits_with_def decode_def)

text \<open>
  Claim C5, amended. When the interpreter exits, with any return code, and the captured
  bytes decode under the platform's preferred encoding, \<^verbatim>\<open>run_code\<close> shows exactly the
  decoded text (line endings translated) in a new output window, the same result as for a
  run with return code 0 and the same output; and what the run wrote within a line (\<^verbatim>\<open>hi\<close>,
  or a line of a traceback) is part of the text shown.
\<close>

theorem run_code_output:
  "python (buffer st) = Exited rc bs \<Longrightarrow> python' (buffer st) = Exited 0 bs \<Longrightarrow>
   decode (preferred_encoding pf) bs = Inr txt \<Longrightarrow>
     run_code pf python st =
       Inr (st\<lparr>output_windows := output_windows st @ [universal_newlines txt]\<rparr>) \<and>
     run_code pf python st = run_code pf python' st \<and>
     (\<forall>pre w post. txt = pre @ w @ post \<and> w \<noteq> [] \<and> 13 \<notin> set w \<and> 10 \<notin> set w \<longrightarrow>
        universal_newlines txt = universal_newlines pre @ w @ universal_newlines post)"
  by (simp add: run_code_Exited universal_newlines_keeps)

theorem run_code_output_witness:
  "run_code \<lparr>preferred_encoding = UTF8, linesep = [10]\<rparr> (exits_with 1 (map of_nat [90, 101, 114, 111, 68, 105, 118, 105, 115, 105, 111, 110, 69, 114, 114, 111, 114, 58, 32, 100, 105, 118, 105, 115, 105, 111, 110, 32, 98, 121, 32, 122, 101, 114, 111, 10]))
     (initial_app\<lparr>buffer := [49, 47, 48]\<rparr>) =
     Inr (initial_app\<lparr>buffer := [49, 47, 48], output_windows := [[90, 101, 114, 111, 68, 105, 118, 105, 115, 105, 111, 110, 69, 114, 114, 111, 114, 58, 32, 100, 105, 118, 105, 115, 105, 111, 110, 32, 98, 121, 32, 122, 101, 114, 111, 10]]\<rparr>) \<and>
   run_code \<lparr>preferred_encoding = UTF8, linesep = [10]\<rparr> (exits_with 1 (map of_nat [90, 101, 114, 111, 68, 105, 118, 105, 115, 105, 111, 110, 69, 114, 114, 111, 114, 58, 32, 100, 105, 118, 105, 115, 105, 111, 110, 32, 98, 121, 32, 122, 101, 114, 111, 10]))
     (initial_app\<lparr>buffer := [49, 47, 48]\<rparr>) =
   run_code \<lparr>preferred_encoding = UTF8, linesep = [10]\<rparr> (exits_with 0 (map of_nat [90, 101, 114, 111, 68, 105, 118, 105, 115, 105, 111, 110, 69, 114, 114, 111, 114, 58, 32, 100, 105, 118, 105, 115, 105, 111, 110, 32, 98, 121, 32, 122, 101, 114, 111, 10]))
     (initial_app\<lparr>buffer := [49, 47, 48]\<rparr>) \<and>
   run_code \<lparr>preferred_encoding = UTF8, linesep = [10]\<rparr> (exits_with 0 [104, 105, 13, 10])
     (initial_app\<lparr>buffer := [112, 114, 105, 110, 116, 40, 34, 104, 105, 34, 41]\<rparr>) =
     Inr (initial_app\<lparr>buffer := [112, 114, 105, 110, 116, 40, 34, 104, 105, 34, 41], output_windows := [[104, 105, 10]]\<rparr>)"
proof -
  let ?pf = "\<lparr>preferred_encoding = UTF8, linesep = [10]\<rparr>"
  let ?st = "initial_app\<lparr>buffer := [49, 47, 48]\<rparr>"
  let ?err = "[90, 101, 114, 111, 68, 105, 118, 105, 115, 105, 111, 110, 69, 114, 114, 111, 114, 58, 32, 100, 105, 118, 105, 115, 105, 111, 110, 32, 98, 121, 32, 122, 101, 114, 111, 10] :: pystr"
  let ?bs = "map of_nat ?err :: byte list"
  have d: "decode (preferred_encoding ?pf) ?bs = Inr ?err"
    by (simp add: decode_def push_def)
  have u: "universal_newlines ?err = ?err" by (rule universal_newlines_id) simp
  have a: "exits_with 1 ?bs (buffer ?st) = Exited 1 ?bs" "exits_with 0 ?bs (buffer ?st) = Exited 0 ?bs"
    by (simp_all add: exits_with_def)
  note r = run_code_output [of "exits_with 1 ?bs" ?st 1 ?bs "exits_with 0 ?bs" ?pf ?err,
      OF a(1) a(2) d]
  have o: "output_windows ?st = []" by (simp add: initial_app_def)
  have 1: "run_code ?pf (exits_with 1 ?bs) ?st =
      Inr (initial_app\<lparr>buffer := [49, 47, 48], output_windows := [?err]\<rparr>)"
    unfolding r [THEN conjunct1] u o by (simp add: initial_app_def)
  have 2: "run_code ?pf (exits_with 1 ?bs) ?st = run_code ?pf (exits_with 0 ?bs) ?st"
    by (rule r [THEN conjunct2, THEN conjunct1])
  let ?st' = "initial_app\<lparr>buffer := [112, 114, 105, 110, 116, 40, 34, 104, 105, 34, 41]\<rparr>"
  let ?hi = "[104, 105, 13, 10] :: byte list"
  have d': "decode (preferred_encoding ?pf) ?hi = Inr ([] @ [104, 105] @ [13, 10])"
    by (simp add: decode_def push_def)
  have a': "exits_with 0 ?hi (buffer ?st') = Exited 0 ?hi" by (simp add: exits_with_def)
  note r' = run_code_output [of "exits_with 0 ?hi" ?st' 0 ?hi "exits_with 0 ?hi" ?pf
      "[] @ [104, 105] @ [13, 10]", OF a' a' d']
  have k: "universal_newlines ([] @ [104, 105] @ [13, 10]) =
      universal_newlines [] @ [104, 105] @ universal_newlines [13, 10]"
    by (rule r' [THEN conjunct2, THEN conjunct2, rule_format]) simp
  have o': "output_windows ?st' = []" by (simp add: initial_app_def)
  have 3: "run_code ?pf (exits_with 0 ?hi) ?st' =
      Inr (initial_app\<lparr>buffer := [112, 114, 105, 110, 116, 40, 34, 104, 105, 34, 41], output_windows := [[104, 105, 10]]\<rparr>)"
    unfolding r' [THEN conjunct1] k o' by (simp add: initial_app_def)
  from 1 2 3 show ?thesis by (intro conjI)
qed

lemma py_int_of_int: "py_int (of_int z) = z"
  by (simp add: py_int_def)

lemma py_int_signed: "py_int (signed (w :: 32 word)) = sint w"
  using py_int_of_int [of "sint w"] by simp

lemma c_int_sint: "c_int (sint (w :: 32 word))"
  using sint_ge [of w] sint_lt [of w] by (simp add: c_int_def)

lemma request_region_rectF:
  "c_int (py_int y) \<Longrightarrow> c_int (py_int h) \<Longrightarrow>
   request_region (PRectF x y w h) st =
     Inr (st\<lparr>gutter_updates := gutter_updates st @ [Region 0 (py_int y) gutter_width (py_int h)]\<rparr>)"
  by (simp add: request_region_def rect_y_def rect_height_def)

lemma update_rect:
  "update_line_number_area cr (PRect x y w h) st =
     Inr (st\<lparr>gutter_updates := gutter_updates st @ [Region 0 (sint y) gutter_width (sint h)]\<rparr>)"
  by (simp add: update_line_number_area_def is_QRect_def to_QRectF_def request_region_rectF
      py_int_signed c_int_sint)

lemma update_rectF:
  "c_int (py_int y) \<Longrightarrow> c_int (py_int h) \<Longrightarrow>
   update_line_number_area cr (PRectF x y w h) st =
     Inr (st\<lparr>gutter_updates := gutter_updates st @ [Region 0 (py_int y) gutter_width (py_int h)]\<rparr>)"
  by (simp add: update_line_number_area_def is_QRect_def is_QRectF_def request_region_rectF)

lemma update_other:
  "\<not> is_QRect p \<Longrightarrow> \<not> is_QRectF p \<Longrightarrow> \<exists>st'. update_line_number_area cr p st = Inr st'"
  by (cases cr) (simp add: update_line_number_area_def)

lemma update_in_range:
  assumes "\<forall>x y w h. p = PRectF x y w h \<longrightarrow> c_int (py_int y) \<and> c_int (py_int h)"
  shows "\<exists>st'. update_line_number_area cr p st = Inr st'"
proof (cases p)
  case (PRect x y w h)
  then show ?thesis by (simp add: update_rect)
next
  case (PRectF x y w h)
  with assms show ?thesis by (simp add: update_rectF)
qed (simp_all add: update_other is_QRect_def is_QRectF_def)

lemma handle_unexpected:
  "\<not> is_QRect p \<Longrightarrow> \<not> is_QRectF p \<Longrightarrow>
   handle_update_request cr p st = Inr (st\<lparr>console := console st @ [UnexpectedType p, ValueOfRect p]\<rparr>)"
  by (simp add: handle_update_request_def)

lemma handle_in_range:
  assumes "\<forall>x y w h. p = PRectF x y w h \<longrightarrow> c_int (py_int y) \<and> c_int (py_int h)"
  shows "\<exists>st'. handle_update_request cr p st = Inr st'"
  using update_in_range [OF assms, of cr st] by (simp add: handle_update_request_def)

lemma open_file_after_decode_failure:
  "read_text UTF8 disk file_name = Inl UnicodeDecodeError \<Longrightarrow>
     \<exists>st'. open_file disk disk' file_name st = Inr st'"
  by (cases "read_text Latin1 disk' file_name") (simp_all add: open_file_def)

text \<open>
  \<^verbatim>\<open>run_code\<close> handles \<^verbatim>\<open>CalledProcessError\<close> only. When the interpreter cannot be started,
  \<^verbatim>\<open>OSError\<close> leaves \<^verbatim>\<open>run_code\<close>: Claim C6 does not hold for every failure of the external
  process.
\<close>

theorem interpreter_missing_escapes:
  "run_code \<lparr>preferred_encoding = UTF8, linesep = [10]\<rparr> cannot_start
     (initial_app\<lparr>buffer := [112, 114, 105, 110, 116, 40, 34, 104, 105, 34, 41]\<rparr>) = Inl OSError"
  by (simp add: run_code_def check_output_def cannot_start_def)

text \<open>
  Claim C6, amended. No exception escapes \<^verbatim>\<open>open_file\<close> when the file's bytes are not UTF-8
  (whatever the second \<^verbatim>\<open>open\<close> finds), nor \<^verbatim>\<open>run_code\<close> when the interpreter exits, with any
  return code, and its output decodes; \<^verbatim>\<open>handle_update_request\<close> logs a payload that is no
  rectangle and returns; the redraw path returns for every payload other than a
  \<^verbatim>\<open>QRectF\<close> whose \<open>y\<close> or height is out of the range of a C int; and the handler of
  \<^verbatim>\<open>blockCountChanged\<close> returns with nothing changed.
\<close>

theorem handled_conditions_raise_nothing:
  "(read_text UTF8 disk file_name = Inl UnicodeDecodeError \<longrightarrow>
      (\<exists>st'. open_file disk disk' file_name st = Inr st')) \<and>
   (python (buffer st) = Exited rc bs \<and> decode (preferred_encoding pf) bs = Inr txt \<longrightarrow>
      (\<exists>st'. run_code pf python st = Inr st')) \<and>
   (\<not> is_QRect p \<and> \<not> is_QRectF p \<longrightarrow>
      handle_update_request cr p st =
        Inr (st\<lparr>console := console st @ [UnexpectedType p, ValueOfRect p]\<rparr>)) \<and>
   ((\<forall>x y w h. p = PRectF x y w h \<longrightarrow> c_int (py_int y) \<and> c_int (py_int h)) \<longrightarrow>
      (\<exists>st'. handle_update_request cr p st = Inr st') \<and>
      (\<exists>st'. update_line_number_area cr p st = Inr st')) \<and>
   on_event cr (BlockCountChanged n) st = Inr st"
proof (intro conjI impI)
  assume "read_text UTF8 disk file_name = Inl UnicodeDecodeError"
  then show "\<exists>st'. open_file disk disk' file_name st = Inr st'"
    by (rule open_file_after_decode_failure)
next
  assume "python (buffer st) = Exited rc bs \<and> decode (preferred_encoding pf) bs = Inr txt"
  then show "\<exists>st'. run_code pf python st = Inr st'" by (simp add: run_code_Exited)
next
  assume "\<not> is_QRect p \<and> \<not> is_QRectF p"
  then show "handle_update_request cr p st =
      Inr (st\<lparr>console := console st @ [UnexpectedType p, ValueOfRect p]\<rparr>)"
    by (simp add: handle_unexpected)
next
  assume "\<forall>x y w h. p = PRectF x y w h \<longrightarrow> c_int (py_int y) \<and> c_int (py_int h)"
  then show "\<exists>st'. handle_update_request cr p st = Inr st'" by (rule handle_in_range)
next
  assume "\<forall>x y w h. p = PRectF x y w h \<longrightarrow> c_int (py_int y) \<and> c_int (py_int h)"
  then show "\<exists>st'. update_line_number_area cr p st = Inr st'" by (rule update_in_range)
next
  show "on_event cr (BlockCountChanged n) st = Inr st"
    by (simp add: on_event_def update_line_number_area_def is_QRect_def is_QRectF_def)
qed

theorem handled_conditions_raise_nothing_witness:
  "read_text UTF8 [''a.txt'' \<mapsto> [0xFF]] ''a.txt'' = Inl UnicodeDecodeError \<and>
   (\<exists>st'. open_file [''a.txt'' \<mapsto> [0xFF]] Map.empty ''a.txt'' initial_app = Inr st') \<and>
   decode UTF8 [33] = Inr [33] \<and>
   (\<exists>st'. run_code \<lparr>preferred_encoding = UTF8, linesep = [10]\<rparr> (exits_with 2 [33]) initial_app
      = Inr st') \<and>
   handle_update_request (0, 0, 800, 600) (PInt 3) initial_app =
     Inr (initial_app\<lparr>console := [UnexpectedType (PInt 3), ValueOfRect (PInt 3)]\<rparr>) \<and>
   (\<exists>st'. update_line_number_area (0, 0, 800, 600) (PInt 3) initial_app = Inr st') \<and>
   on_event (0, 0, 800, 600) (BlockCountChanged 3) initial_app = Inr initial_app"
proof -
  let ?pf = "\<lparr>preferred_encoding = UTF8, linesep = [10]\<rparr>"
  have a: "read_text UTF8 [''a.txt'' \<mapsto> [0xFF]] ''a.txt'' = Inl UnicodeDecodeError"
    by (simp add: read_text_def decode_def)
  have b: "exits_with 2 [33] (buffer initial_app) = Exited 2 [33] \<and>
      decode (preferred_encoding ?pf) [33] = Inr [33]"
    by (simp add: exits_with_def decode_def push_def)
  have c: "\<not> is_QRect (PInt 3) \<and> \<not> is_QRectF (PInt 3)"
    by (simp add: is_QRect_def is_QRectF_def)
  have d: "\<forall>x y w h. PInt 3 = PRectF x y w h \<longrightarrow> c_int (py_int y) \<and> c_int (py_int h)" by simp
  have e: "console initial_app = []" by (simp add: initial_app_def)
  note r = handled_conditions_raise_nothing [of "[''a.txt'' \<mapsto> [0xFF]]" "''a.txt''" Map.empty
      initial_app "exits_with 2 [33]" 2 "[33]" ?pf "[33]" "PInt 3" "(0, 0, 800, 600)" 3]
  have r1: "\<exists>st'. open_file [''a.txt'' \<mapsto> [0xFF]] Map.empty ''a.txt'' initial_app = Inr st'"
    using r [THEN conjunct1] a by (rule mp)
  have r2: "\<exists>st'. run_code ?pf (exits_with 2 [33]) initial_app = Inr st'"
    using r [THEN conjunct2, THEN conjunct1] b by (rule mp)
  have r3: "handle_update_request (0, 0, 800, 600) (PInt 3) initial_app =
      Inr (initial_app\<lparr>console := console initial_app @ [UnexpectedType (PInt 3), ValueOfRect (PInt 3)]\<rparr>)"
    using r [THEN conjunct2, THEN conjunct2, THEN conjunct1] c by (rule mp)
  have r4: "\<exists>st'. update_line_number_area (0, 0, 800, 600) (PInt 3) initial_app = Inr st'"
    using r [THEN conjunct2, THEN conjunct2, THEN conjunct2, THEN conjunct1] d by blast
  have r5: "on_event (0, 0, 800, 600) (BlockCountChanged 3) initial_app = Inr initial_app"
    by (rule r [THEN conjunct2, THEN conjunct2, THEN conjunct2, THEN conjunct2])
  from b have b': "decode UTF8 [33] = Inr [33]" by simp
  from r3 have r3': "handle_update_request (0, 0, 800, 600) (PInt 3) initial_app =
      Inr (initial_app\<lparr>console := [UnexpectedType (PInt 3), ValueOfRect (PInt 3)]\<rparr>)"
    unfolding e by simp
  from a r1 b' r2 r3' r4 r5 show ?thesis by (intro conjI)
qed

lemma read_text_Latin1:
  "read_text Latin1 disk p =
     (case disk p of None \<Rightarrow> Inl OSError | Some bs \<Rightarrow> Inr (universal_newlines (map unat bs)))"
  by (simp add: read_text_def decode_def split: option.split)

text \<open>
  Claim C10. Latin-1 decodes every byte sequence (each byte to the code point of its value);
  the fallback read can fail only because the file cannot be read, never by a decode error;
  and a readable file whose bytes are not valid UTF-8 is loaded into the buffer, decoded as
  Latin-1.
\<close>

theorem latin1_fallback_total:
  "decode Latin1 bs = Inr (map unat bs) \<and>
   (\<forall>e. read_text Latin1 disk' p = Inl e \<longrightarrow> e = OSError \<and> disk' p = None) \<and>
   (p \<noteq> [] \<and> disk p = Some bs \<and> disk' p = Some bs \<and> decode UTF8 bs = Inl UnicodeDecodeError \<longrightarrow>
      open_file disk disk' p st = Inr (st\<lparr>buffer := universal_newlines (map unat bs)\<rparr>))"
  by (auto simp: read_text_Latin1 open_file_def read_text_def decode_def split: option.splits)

theorem latin1_fallback_total_witness:
  "decode UTF8 [0x63, 0x61, 0x66, 0xE9] = Inl UnicodeDecodeError \<and>
   decode Latin1 [0x63, 0x61, 0x66, 0xE9] = Inr [0x63, 0x61, 0x66, 0xE9] \<and>
   open_file [''a.txt'' \<mapsto> [0x63, 0x61, 0x66, 0xE9]] [''a.txt'' \<mapsto> [0x63, 0x61, 0x66, 0xE9]]
       ''a.txt'' initial_app = Inr (initial_app\<lparr>buffer := [0x63, 0x61, 0x66, 0xE9]\<rparr>)"
proof -
  let ?bs = "[0x63, 0x61, 0x66, 0xE9] :: byte list"
  let ?d = "[''a.txt'' \<mapsto> ?bs]"
  have a: "decode UTF8 ?bs = Inl UnicodeDecodeError" by (simp add: decode_def push_def)
  have b: "?d ''a.txt'' = Some ?bs" by simp
  have c: "universal_newlines (map unat ?bs) = [0x63, 0x61, 0x66, 0xE9]" by simp
  from latin1_fallback_total [of ?bs ?d "''a.txt''" ?d initial_app] a b c
  show ?thesis by simp
qed

section \<open>The line number area\<close>





section \<open>A string literal followed by a comment\<close>

text \<open>
  Where the string and comment patterns match: a quoted string from a quote character to
  the next one, a comment from a \<^verbatim>\<open>#\<close> to the end of the line; \<^verbatim>\<open>indexIn\<close> from 0 finds the
  first position with a match and the longest match there.
\<close>

lemma ends_Str1: "ends (Str [q]) t i = (if i < length t \<and> t ! i = q then [Suc i] else [])"
proof (cases "i < length t")
  case True
  then have "drop i t = t ! i # drop (Suc i) t" by (simp add: Cons_nth_drop_Suc)
  then show ?thesis using True by simp
next
  case False
  then show ?thesis by simp
qed

lemma iter_ends_cls:
  "set (iter_ends n (\<lambda>j. ends (Cls k) t j) xs) =
     {j. \<exists>x \<in> set xs. x \<le> j \<and> j \<le> x + n \<and>
           (\<forall>m. x \<le> m \<and> m < j \<longrightarrow> m < length t \<and> cls_ok k (t ! m))}"
proof (induction n arbitrary: xs)
  case 0
  show ?case
  proof (intro set_eqI iffI)
    fix j assume "j \<in> set (iter_ends 0 (\<lambda>j. ends (Cls k) t j) xs)"
    then have "j \<in> set xs" by simp
    then show "j \<in> {j. \<exists>x \<in> set xs. x \<le> j \<and> j \<le> x + 0 \<and>
           (\<forall>m. x \<le> m \<and> m < j \<longrightarrow> m < length t \<and> cls_ok k (t ! m))}"
      by (intro CollectI bexI [of _ j]) auto
  next
    fix j assume "j \<in> {j. \<exists>x \<in> set xs. x \<le> j \<and> j \<le> x + 0 \<and>
           (\<forall>m. x \<le> m \<and> m < j \<longrightarrow> m < length t \<and> cls_ok k (t ! m))}"
    then obtain x where "x \<in> set xs" "x \<le> j" "j \<le> x + 0" by blast
    then have "j \<in> set xs" by simp
    then show "j \<in> set (iter_ends 0 (\<lambda>j. ends (Cls k) t j) xs)" by simp
  qed
next
  case (Suc n)
  let ?ok = "\<lambda>m. m < length t \<and> cls_ok k (t ! m)"
  let ?ys = "remdups (xs @ concat (map (\<lambda>j. ends (Cls k) t j) xs))"
  let ?A = "{j. \<exists>x \<in> set ?ys. x \<le> j \<and> j \<le> x + n \<and> (\<forall>m. x \<le> m \<and> m < j \<longrightarrow> ?ok m)}"
  let ?B = "{j. \<exists>x \<in> set xs. x \<le> j \<and> j \<le> x + Suc n \<and> (\<forall>m. x \<le> m \<and> m < j \<longrightarrow> ?ok m)}"
  have ys: "y \<in> set ?ys \<longleftrightarrow> y \<in> set xs \<or> (\<exists>x. y = Suc x \<and> x \<in> set xs \<and> ?ok x)" for y
    by auto
  have "?A = ?B"
  proof (intro set_eqI iffI)
    fix j assume "j \<in> ?A"
    then obtain x where x: "x \<in> set ?ys" "x \<le> j" "j \<le> x + n"
      "\<forall>m. x \<le> m \<and> m < j \<longrightarrow> ?ok m" by blast
    from x(1) have "x \<in> set xs \<or> (\<exists>x0. x = Suc x0 \<and> x0 \<in> set xs \<and> ?ok x0)"
      by (simp only: ys)
    then consider "x \<in> set xs" | x0 where "x = Suc x0" "x0 \<in> set xs" "?ok x0"
      by blast
    then show "j \<in> ?B"
    proof cases
      case 1
      moreover from x(3) have "j \<le> x + Suc n" by simp
      ultimately show ?thesis using x(2,4) by blast
    next
      case 2
      have "\<forall>m. x0 \<le> m \<and> m < j \<longrightarrow> ?ok m"
      proof (intro allI impI)
        fix m assume m: "x0 \<le> m \<and> m < j"
        show "?ok m"
        proof (cases "m = x0")
          case True
          with 2(3) show ?thesis by simp
        next
          case False
          with m 2(1) have "x \<le> m \<and> m < j" by simp
          with x(4) show ?thesis by blast
        qed
      qed
      moreover have "x0 \<le> j" "j \<le> x0 + Suc n" using x(2,3) 2(1) by simp_all
      ultimately show ?thesis using 2(2) by blast
    qed
  next
    fix j assume "j \<in> ?B"
    then obtain x where x: "x \<in> set xs" "x \<le> j" "j \<le> x + Suc n"
      "\<forall>m. x \<le> m \<and> m < j \<longrightarrow> ?ok m" by blast
    show "j \<in> ?A"
    proof (cases "j \<le> x + n")
      case True
      from x(1) have "x \<in> set ?ys" by (subst ys) blast
      with x(2,4) True show ?thesis by blast
    next
      case False
      with x(3) have j: "j = Suc (x + n)" by simp
      then have "?ok x" using x(4) by simp
      with x(1) have "Suc x \<in> set ?ys" by (subst ys) blast
      moreover have "Suc x \<le> j" "j \<le> Suc x + n" using j by simp_all
      moreover have "\<forall>m. Suc x \<le> m \<and> m < j \<longrightarrow> ?ok m" using x(4) by simp
      ultimately show ?thesis by blast
    qed
  qed
  then show ?case using Suc.IH [of ?ys] by simp
qed

lemma set_ends_star_cls:
  assumes "i \<le> length t"
  shows "set (ends (Star (Cls k)) t i) =
     {j. i \<le> j \<and> j \<le> length t \<and> (\<forall>m. i \<le> m \<and> m < j \<longrightarrow> cls_ok k (t ! m))}"
proof -
  have "set (ends (Star (Cls k)) t i) =
      {j. i \<le> j \<and> j \<le> i + (length t - i) \<and>
          (\<forall>m. i \<le> m \<and> m < j \<longrightarrow> m < length t \<and> cls_ok k (t ! m))}"
    by (simp add: iter_ends_cls)
  also have "\<dots> = {j. i \<le> j \<and> j \<le> length t \<and> (\<forall>m. i \<le> m \<and> m < j \<longrightarrow> cls_ok k (t ! m))}"
    using assms by auto
  finally show ?thesis .
qed

lemma set_ends_quoted:
  "set (ends (Seq (Str [q]) (Seq (Star (Cls (Not q))) (Str [q]))) t a) =
     {Suc j | j. a < length t \<and> t ! a = q \<and> a < j \<and> j < length t \<and> t ! j = q \<and>
        (\<forall>m. a < m \<and> m < j \<longrightarrow> t ! m \<noteq> q)}"
proof (cases "a < length t \<and> t ! a = q")
  case False
  then show ?thesis unfolding set_ends_Seq ends_Str1 by auto
next
  case True
  then have s: "Suc a \<le> length t" by simp
  have "set (ends (Seq (Str [q]) (Seq (Star (Cls (Not q))) (Str [q]))) t a) =
      (\<Union>j \<in> set (ends (Star (Cls (Not q))) t (Suc a)). set (ends (Str [q]) t j))"
    unfolding set_ends_Seq ends_Str1 using True by simp
  also have "\<dots> = {Suc j | j. Suc a \<le> j \<and> j < length t \<and> t ! j = q \<and>
        (\<forall>m. Suc a \<le> m \<and> m < j \<longrightarrow> t ! m \<noteq> q)}"
    unfolding set_ends_star_cls [OF s] ends_Str1 by auto
  also have "\<dots> = {Suc j | j. a < length t \<and> t ! a = q \<and> a < j \<and> j < length t \<and> t ! j = q \<and>
        (\<forall>m. a < m \<and> m < j \<longrightarrow> t ! m \<noteq> q)}"
    using True by (auto simp: Suc_le_eq)
  finally show ?thesis .
qed

lemma set_ends_comment:
  "set (ends comment_rx t c) = {j. c < length t \<and> t ! c = CHR ''#'' \<and> c < j \<and> j \<le> length t}"
proof (cases "c < length t \<and> t ! c = CHR ''#''")
  case False
  then show ?thesis unfolding comment_rx_def set_ends_Seq ends_Str1 by auto
next
  case True
  then have s: "Suc c \<le> length t" by simp
  have "set (ends comment_rx t c) = set (ends (Star (Cls AnyC)) t (Suc c))"
    unfolding comment_rx_def set_ends_Seq ends_Str1 using True by simp
  also have "\<dots> = {j. c < length t \<and> t ! c = CHR ''#'' \<and> c < j \<and> j \<le> length t}"
    unfolding set_ends_star_cls [OF s] using True by (auto simp: Suc_le_eq)
  finally show ?thesis .
qed

lemma first_match_skip:
  "\<forall>k \<in> set xs. ends r t k = [] \<Longrightarrow> ends r t i \<noteq> [] \<Longrightarrow>
   first_match r t (xs @ i # ys) = Some (i, Max (set (ends r t i)) - i)"
proof (induction xs)
  case Nil
  then show ?case by (cases "ends r t i") simp_all
next
  case (Cons x xs)
  then show ?case by simp
qed

lemma indexIn_first:
  assumes "i \<le> length t" and "\<forall>k < i. ends r t k = []" and "ends r t i \<noteq> []"
  shows "indexIn r t 0 = Some (i, Max (set (ends r t i)) - i)"
proof -
  from assms(1) have "i \<le> Suc (length t)" by simp
  then obtain d where d: "Suc (length t) = i + d" using le_Suc_ex by blast
  with assms(1) have pos: "i < i + d" by arith
  have e: "[0 ..< i + d] = [0 ..< i] @ [i ..< i + d]" by (rule upt_add_eq_append) simp
  have f: "[i ..< i + d] = i # [Suc i ..< i + d]" using pos by (rule upt_conv_Cons)
  have none: "\<forall>k \<in> set [0 ..< i]. ends r t k = []" using assms(2) by simp
  show ?thesis
    unfolding indexIn_def d e f using none assms(3) by (rule first_match_skip)
qed

lemma first_in_all_matches:
  "indexIn r t 0 = Some (i, l) \<Longrightarrow> (i, l) \<in> set (all_matches r t 0)"
  by (subst all_matches.simps) simp

lemma span_of_rule:
  assumes "(r, c) \<in> set rs" and "(i, l) \<in> set (all_matches r t 0)"
  shows "(i, l, c) \<in> set (spans (apply_rules rs t s))"
proof -
  have "(i, l, c) \<in> (\<lambda>(i, l). (i, l, c)) ` set (all_matches r t 0)"
    using assms(2) by (intro image_eqI [where x = "(i, l)"]) simp_all
  then have "(i, l, c) \<in> set (rule_spans t (r, c))" by (simp add: rule_spans_def)
  with assms(1) have "(i, l, c) \<in> set (concat (map (rule_spans t) rs))"
    unfolding set_concat set_map by blast
  moreover have "spans (apply_rules rs t s) = spans s @ concat (map (rule_spans t) rs)"
    using apply_rules_props [of rs t s] by blast
  ultimately show ?thesis by simp
qed

lemma in_set_nonempty: "x \<in> set xs \<Longrightarrow> xs \<noteq> []"
  by auto

text \<open>
  The comment pattern knows nothing of strings: on the line \<^verbatim>\<open>"a#b" # c\<close> the comment span
  starts at the \<^verbatim>\<open>#\<close> inside the string literal, so the only string span and the only comment
  span both cover character 2. Claim C8 does not hold for every line with a string literal
  followed by a comment marker.
\<close>

theorem string_spans_overlap_comment:
  "highlightBlock (CHR 0x22 # ''a#b'' @ CHR 0x22 # '' # c'') =
     Some \<lparr>formats = [Some Red, Some Red, Some Red, Some Red, Some Red,
                        Some Green, Some Green, Some Green, Some Green],
            spans = [(2, 7, Green), (0, 5, Red)]\<rparr> \<and>
   covers 2 (2, 7, Green) \<and> covers 2 (0, 5, Red)"
proof -
  have "highlightBlock (CHR 0x22 # ''a#b'' @ CHR 0x22 # '' # c'') =
     Some \<lparr>formats = [Some Red, Some Red, Some Red, Some Red, Some Red,
                        Some Green, Some Green, Some Green, Some Green],
            spans = [(2, 7, Green), (0, 5, Red)]\<rparr>"
    by code_simp
  then show ?thesis by (simp add: covers_def)
qed

text \<open>
  Claim C8, amended. Let \<open>q\<close> be the double or the single quote, \<open>a\<close> and \<open>b\<close> the positions
  of the first two \<open>q\<close> of the line (the string literal) and \<open>c\<close>, after \<open>b\<close>, the position
  of the first \<^verbatim>\<open>#\<close> of the line. Then \<^verbatim>\<open>highlightBlock\<close> makes a span in the string colour that
  bounds exactly the literal, and a span in the comment colour from the \<^verbatim>\<open>#\<close> to the end of
  the line, and the string span ends before the comment span starts.
\<close>

theorem string_then_comment:
  assumes q: "q = CHR 0x22 \<or> q = CHR 0x27"
    and ab: "a < b" and bc: "b < c" and c: "c < length t"
    and ta: "t ! a = q" and tb: "t ! b = q" and tc: "t ! c = CHR ''#''"
    and noq: "\<forall>m < b. m \<noteq> a \<longrightarrow> t ! m \<noteq> q"
    and nohash: "\<forall>m < c. t ! m \<noteq> CHR ''#''"
  shows "\<exists>s. highlightBlock t = Some s \<and>
           (a, b - a + 1, Red) \<in> set (spans s) \<and>
           (c, length t - c, Green) \<in> set (spans s) \<and>
           a + (b - a + 1) \<le> c"
proof -
  let ?r = "Seq (Str [q]) (Seq (Star (Cls (Not q))) (Str [q]))"
  let ?s = "apply_rules highlighting_rules t (init_state t)"
  have rule: "(?r, Red) \<in> set highlighting_rules"
    using q by (auto simp: highlighting_rules_def create_rule_def dq_string_rx_def sq_string_rx_def)
  have crule: "(comment_rx, Green) \<in> set highlighting_rules"
    by (simp add: highlighting_rules_def create_rule_def)
  have a_len: "a < length t" and b_len: "b < length t" using ab bc c by simp_all
  have ends_a: "set (ends ?r t a) = {Suc b}"
  proof (intro set_eqI iffI)
    fix x assume "x \<in> set (ends ?r t a)"
    then obtain j where j: "x = Suc j" "a < j" "j < length t" "t ! j = q"
      "\<forall>m. a < m \<and> m < j \<longrightarrow> t ! m \<noteq> q"
      unfolding set_ends_quoted by blast
    have "\<not> j < b" using noq j(2,4) by auto
    moreover have "\<not> b < j" using j(5) ab tb by auto
    ultimately have "j = b" by simp
    with j(1) show "x \<in> {Suc b}" by simp
  next
    fix x assume "x \<in> {Suc b}"
    then have x: "x = Suc b" by simp
    have "\<forall>m. a < m \<and> m < b \<longrightarrow> t ! m \<noteq> q" using noq by auto
    with a_len b_len ab ta tb show "x \<in> set (ends ?r t a)"
      unfolding set_ends_quoted x by blast
  qed
  have before_a: "\<forall>k < a. ends ?r t k = []"
  proof (intro allI impI)
    fix k assume k: "k < a"
    with noq ab have "t ! k \<noteq> q" by auto
    then have "set (ends ?r t k) = {}" unfolding set_ends_quoted by blast
    then show "ends ?r t k = []" by simp
  qed
  have "Suc b \<in> set (ends ?r t a)" unfolding ends_a by (rule insertI1)
  then have ne_a: "ends ?r t a \<noteq> []" by (rule in_set_nonempty)
  have "indexIn ?r t 0 = Some (a, Max (set (ends ?r t a)) - a)"
    using a_len before_a ne_a by (intro indexIn_first) simp_all
  then have m1: "indexIn ?r t 0 = Some (a, b - a + 1)" unfolding ends_a using ab by simp
  have ends_c: "set (ends comment_rx t c) = {j. c < j \<and> j \<le> length t}"
    unfolding set_ends_comment using c tc by simp
  have before_c: "\<forall>k < c. ends comment_rx t k = []"
  proof (intro allI impI)
    fix k assume "k < c"
    with nohash have "t ! k \<noteq> CHR ''#''" by simp
    then have "set (ends comment_rx t k) = {}" unfolding set_ends_comment by blast
    then show "ends comment_rx t k = []" by simp
  qed
  have "Suc c \<in> set (ends comment_rx t c)" unfolding ends_c using c by simp
  then have ne_c: "ends comment_rx t c \<noteq> []" by (rule in_set_nonempty)
  have max_c: "Max (set (ends comment_rx t c)) = length t"
  proof (rule Max_eqI)
    show "finite (set (ends comment_rx t c))" by simp
  next
    fix y assume "y \<in> set (ends comment_rx t c)"
    then show "y \<le> length t" unfolding ends_c by simp
  next
    show "length t \<in> set (ends comment_rx t c)" unfolding ends_c using c by simp
  qed
  have "indexIn comment_rx t 0 = Some (c, Max (set (ends comment_rx t c)) - c)"
    using c before_c ne_c by (intro indexIn_first) simp_all
  then have m2: "indexIn comment_rx t 0 = Some (c, length t - c)" unfolding max_c .
  have run: "highlightBlock t = Some ?s" by (rule highlightBlock_total)
  have s1: "(a, b - a + 1, Red) \<in> set (spans ?s)"
    using rule m1 by (intro span_of_rule first_in_all_matches)
  have s2: "(c, length t - c, Green) \<in> set (spans ?s)"
    using crule m2 by (intro span_of_rule first_in_all_matches)
  have d: "a + (b - a + 1) \<le> c" using ab bc by simp
  show ?thesis by (rule exI [of _ ?s]) (intro conjI run s1 s2 d)
qed

theorem string_then_comment_witness:
  "\<exists>s. highlightBlock (CHR 0x22 # ''hi'' @ CHR 0x22 # '' # note'') = Some s \<and>
     (0, 4, Red) \<in> set (spans s) \<and> (5, 6, Green) \<in> set (spans s) \<and> (4::nat) \<le> 5"
proof -
  let ?t = "CHR 0x22 # ''hi'' @ CHR 0x22 # '' # note''"
  have noq: "\<forall>m < 3. m \<noteq> 0 \<longrightarrow> ?t ! m \<noteq> CHR 0x22"
    by (simp add: less_Suc_eq numeral_3_eq_3 nth_Cons')
  have nohash: "\<forall>m < 5. ?t ! m \<noteq> CHR ''#''"
    by (simp add: less_Suc_eq eval_nat_numeral nth_Cons')
  have "\<exists>s. highlightBlock ?t = Some s \<and>
           (0, 3 - 0 + 1, Red) \<in> set (spans s) \<and>
           (5, length ?t - 5, Green) \<in> set (spans s) \<and>
           0 + (3 - 0 + 1) \<le> (5::nat)"
    using noq nohash
    by (intro string_then_comment [where q = "CHR 0x22"]) simp_all
  moreover have "length ?t - 5 = 6" "3 - 0 + 1 = (4::nat)" by simp_all
  ultimately show ?thesis by (simp only:) simp
qed

end
